theory Spec2Isabelle
  imports Main "HOL-Library.AList" "HOL-Library.Multiset"
begin

text \<open>
  An embedding of \<^verbatim>\<open>main.py\<close>: the observers and what they print, the elevator car
  and its request store, the LOOK scheduler, and the dispatch of hall calls to cars.
  The button objects, \<^verbatim>\<open>Floor\<close> and \<^verbatim>\<open>Building\<close> only forward to these and are left out.
\<close>

section \<open>Enumerations\<close>

text \<open>
  The two enumerations of \<^verbatim>\<open>main.py\<close>. Both have a member called \<^verbatim>\<open>IDLE\<close>; as in the
  source they are always written with their class name: \<open>Direction.IDLE\<close>, \<open>Status.IDLE\<close>.
\<close>

datatype Direction = UP | DOWN | IDLE

datatype Status = MOVING | STOPPED | IDLE

section \<open>Exceptions and console output\<close>

text \<open>
  The only operations of the program that can raise are \<^verbatim>\<open>heapq.heappop\<close> on an empty
  list (\<^verbatim>\<open>IndexError\<close>) and a dictionary subscript with an absent key
  (\<^verbatim>\<open>KeyError\<close>, carrying the key).
\<close>

datatype error = IndexError | KeyError int

text \<open>
  Every \<^verbatim>\<open>print\<close> of the program writes one line. A line is kept as the data its format
  string is filled with; the \<open>int option\<close> is the \<^verbatim>\<open>elevator_id\<close> that selects the prefix.
  \<^item> \<open>MovementLine i f\<close>: \<^verbatim>\<open>"{prefix} at floor {f}"\<close> of \<^verbatim>\<open>Display.show_movement\<close>;
  \<^item> \<open>DisplayLine i f d\<close>: \<^verbatim>\<open>"{prefix} - Floor: {f}, Direction: {d.name}"\<close> of
    \<^verbatim>\<open>Display.update\<close>;
  \<^item> \<open>LoggerLine i\<close>: \<^verbatim>\<open>"{prefix} updated"\<close> of \<^verbatim>\<open>Logger.update\<close>.
\<close>

datatype line =
    MovementLine "int option" int
  | DisplayLine "int option" int Direction
  | LoggerLine "int option"

section \<open>Observers\<close>

record Display =
  display_elevator_id :: "int option"
  display_current_floor :: int
  display_direction :: Direction

record Logger =
  logger_elevator_id :: "int option"

definition Display_init :: "int option \<Rightarrow> Display" where
  "Display_init elevator_id =
     \<lparr>display_elevator_id = elevator_id, display_current_floor = 0,
      display_direction = Direction.IDLE\<rparr>"

definition Logger_init :: "int option \<Rightarrow> Logger" where
  "Logger_init elevator_id = \<lparr>logger_elevator_id = elevator_id\<rparr>"

text \<open>The two concrete subclasses of \<^verbatim>\<open>ElevatorObserver\<close>.\<close>

datatype ElevatorObserver = DisplayObserver Display | LoggerObserver Logger

text \<open>
  \<^verbatim>\<open>update\<close> prints the observer's own fields. A display's \<^verbatim>\<open>current_floor\<close> and
  \<^verbatim>\<open>direction\<close> are assigned in its constructor only.
\<close>

fun update :: "ElevatorObserver \<Rightarrow> line" where
  "update (DisplayObserver d) =
     DisplayLine (display_elevator_id d) (display_current_floor d) (display_direction d)"
| "update (LoggerObserver l) = LoggerLine (logger_elevator_id l)"

text \<open>
  \<^verbatim>\<open>range(start, stop, step)\<close> as the list of the values it yields. Python raises
  \<^verbatim>\<open>ValueError\<close> for a zero step; \<^verbatim>\<open>show_movement\<close> only passes 1 or -1.
\<close>

function py_range :: "int \<Rightarrow> int \<Rightarrow> int \<Rightarrow> int list" where
  "py_range start stop step =
     (if 0 < step \<and> start < stop then start # py_range (start + step) stop step
      else if step < 0 \<and> stop < start then start # py_range (start + step) stop step
      else [])"
  by pat_completeness auto
termination
  by (relation "measure (\<lambda>(start, stop, step). nat (if 0 < step then stop - start else start - stop))")
    auto

definition show_movement :: "Display \<Rightarrow> int \<Rightarrow> int \<Rightarrow> line list" where
  "show_movement self current target =
     (let step = (if target > current then 1 else - 1)
      in map (MovementLine (display_elevator_id self))
           (py_range (current + step) (target + step) step))"

section \<open>The elevator car\<close>

text \<open>The only concrete \<^verbatim>\<open>MovementStrategy\<close> of the program.\<close>

datatype MovementStrategy = LookAlgorithm

text \<open>
  \<^verbatim>\<open>external_requests\<close> is a Python dictionary: an association list in insertion order,
  read with \<^const>\<open>map_of\<close> and written with \<^const>\<open>AList.update\<close> (which replaces the
  value of a key in place and appends a new key at the end). The field \<^verbatim>\<open>id\<close> is
  \<open>car_id\<close> here. \<^verbatim>\<open>observers\<close> holds references to the car's own display and logger;
  neither is ever mutated, so the copies in the list stand for the same objects.
\<close>

record ElevatorCar =
  car_id :: int
  current_floor :: int
  status :: Status
  direction :: Direction
  internal_requests :: "int list"
  external_requests :: "(int \<times> Direction) list"
  display :: Display
  logger :: Logger
  strategy :: MovementStrategy
  observers :: "ElevatorObserver list"

definition ElevatorCar_init :: "int \<Rightarrow> ElevatorCar" where
  "ElevatorCar_init i =
     \<lparr>car_id = i, current_floor = 0, status = Status.IDLE, direction = Direction.IDLE,
      internal_requests = [], external_requests = [],
      display = Display_init (Some i), logger = Logger_init (Some i),
      strategy = LookAlgorithm,
      observers = [DisplayObserver (Display_init (Some i)), LoggerObserver (Logger_init (Some i))]\<rparr>"

definition notify :: "ElevatorCar \<Rightarrow> line list" where
  "notify self = map update (observers self)"

definition press_internal_button :: "int \<Rightarrow> ElevatorCar \<Rightarrow> ElevatorCar" where
  "press_internal_button floor self =
     (if floor \<notin> set (internal_requests self)
      then self\<lparr>internal_requests := internal_requests self @ [floor]\<rparr>
      else self)"

definition add_external_request :: "int \<Rightarrow> Direction \<Rightarrow> ElevatorCar \<Rightarrow> ElevatorCar" where
  "add_external_request floor dir self =
     (if map_of (external_requests self) floor = None
      then self\<lparr>external_requests := AList.update floor dir (external_requests self)\<rparr>
      else self)"

text \<open>
  \<^verbatim>\<open>move_to_floor\<close> returns the lines it prints and the car after the call:
  the movement lines first, then the three assignments, then \<^verbatim>\<open>notify\<close>.
\<close>

definition move_to_floor :: "int \<Rightarrow> ElevatorCar \<Rightarrow> line list \<times> ElevatorCar" where
  "move_to_floor floor self =
     (let shown = show_movement (display self) (current_floor self) floor;
          self' = self\<lparr>direction :=
                          (if floor > current_floor self then Direction.UP
                           else if floor < current_floor self then Direction.DOWN
                           else Direction.IDLE),
                        current_floor := floor,
                        status := Status.STOPPED\<rparr>
      in (shown @ notify self', self'))"

section \<open>The LOOK movement strategy\<close>

text \<open>
  \<^verbatim>\<open>heapq\<close> is the standard library's binary heap on a Python list. It is modelled by
  its contract: the list holds the heap's elements (in some arrangement),
  \<^verbatim>\<open>heappush\<close> adds one element, \<^verbatim>\<open>heappop\<close> removes and returns the smallest one and
  raises \<^verbatim>\<open>IndexError\<close> on an empty list.
\<close>

definition heappush :: "int list \<Rightarrow> int \<Rightarrow> int list" where
  "heappush heap item = item # heap"

definition heappop :: "int list \<Rightarrow> error + (int \<times> int list)" where
  "heappop heap =
     (if heap = [] then Inl IndexError
      else Inr (Min (set heap), remove1 (Min (set heap)) heap))"

text \<open>
  What the scheduler acts on: the car, the console its calls print to, and a ghost
  variable \<open>visited\<close> that records the argument of every \<^verbatim>\<open>elevator.move_to_floor\<close>
  call the scheduler makes, in call order.
\<close>

record run =
  elevator :: ElevatorCar
  console :: "line list"
  visited :: "int list"

definition visit :: "int \<Rightarrow> run \<Rightarrow> run" where
  "visit floor w =
     (let (printed, car) = move_to_floor floor (elevator w)
      in \<lparr>elevator = car, console = console w @ printed, visited = visited w @ [floor]\<rparr>)"

text \<open>Line 73: the pending floors, a Python \<^verbatim>\<open>set\<close>.\<close>

definition requests :: "ElevatorCar \<Rightarrow> int set" where
  "requests car = set (internal_requests car @ map fst (external_requests car))"

text \<open>
  Python fixes no iteration order for a set. The scheduler therefore takes the order as a
  parameter \<open>iter\<close>, and \<open>iterates iter S\<close> says what the language does guarantee:
  the loop sees every element of \<open>S\<close> exactly once.
\<close>

definition iterates :: "(int set \<Rightarrow> int list) \<Rightarrow> int set \<Rightarrow> bool" where
  "iterates iter S = (distinct (iter S) \<and> set (iter S) = S)"

text \<open>
  Lines 78 to 84, the \<^verbatim>\<open>for\<close> loop, over the floors still to come; the loop state is
  \<open>(up_heap, down_heap, w)\<close>.
\<close>

fun partition_loop :: "int list \<Rightarrow> int list \<times> int list \<times> run \<Rightarrow> int list \<times> int list \<times> run" where
  "partition_loop [] st = st"
| "partition_loop (floor # rest) (up_heap, down_heap, w) =
     (if floor > current_floor (elevator w)
        then partition_loop rest (heappush up_heap floor, down_heap, w)
      else if floor < current_floor (elevator w)
        then partition_loop rest (up_heap, heappush down_heap (- floor), w)
      else partition_loop rest (up_heap, down_heap, visit floor w))"

text \<open>Lines 87 to 89, \<^verbatim>\<open>while up_heap\<close>; the heap is returned as the loop leaves it.\<close>

function up_loop :: "int list \<Rightarrow> run \<Rightarrow> error + (int list \<times> run)" where
  "up_loop up_heap w =
     (if up_heap = [] then Inr (up_heap, w)
      else case heappop up_heap of
             Inl e \<Rightarrow> Inl e
           | Inr (next_floor, up_heap') \<Rightarrow> up_loop up_heap' (visit next_floor w))"
  by pat_completeness auto
termination
proof (relation "measure (\<lambda>(up_heap, w). length up_heap)")
  fix up_heap :: "int list" and w :: run and x next_floor up_heap'
  assume ne: "up_heap \<noteq> []" and pop: "heappop up_heap = Inr x" and x: "(next_floor, up_heap') = x"
  from ne have "Min (set up_heap) \<in> set up_heap" by (intro Min_in) simp_all
  then have "length (remove1 (Min (set up_heap)) up_heap) < length up_heap"
    by (simp add: length_remove1) (cases up_heap; simp)
  with ne pop x show "((up_heap', visit next_floor w), (up_heap, w)) \<in> measure (\<lambda>(up_heap, w). length up_heap)"
    by (auto simp: heappop_def)
qed simp

text \<open>Lines 92 to 94, \<^verbatim>\<open>while down_heap\<close>, which holds the negated floors.\<close>

function down_loop :: "int list \<Rightarrow> run \<Rightarrow> error + (int list \<times> run)" where
  "down_loop down_heap w =
     (if down_heap = [] then Inr (down_heap, w)
      else case heappop down_heap of
             Inl e \<Rightarrow> Inl e
           | Inr (popped, down_heap') \<Rightarrow> down_loop down_heap' (visit (- popped) w))"
  by pat_completeness auto
termination
proof (relation "measure (\<lambda>(down_heap, w). length down_heap)")
  fix down_heap :: "int list" and w :: run and x popped down_heap'
  assume ne: "down_heap \<noteq> []" and pop: "heappop down_heap = Inr x" and x: "(popped, down_heap') = x"
  from ne have "Min (set down_heap) \<in> set down_heap" by (intro Min_in) simp_all
  then have "length (remove1 (Min (set down_heap)) down_heap) < length down_heap"
    by (simp add: length_remove1) (cases down_heap; simp)
  with ne pop x show "((down_heap', visit (- popped) w), (down_heap, w)) \<in> measure (\<lambda>(down_heap, w). length down_heap)"
    by (auto simp: heappop_def)
qed simp

text \<open>
  \<^verbatim>\<open>LookAlgorithm.process_requests\<close>. The second \<^verbatim>\<open>if\<close> reads \<^verbatim>\<open>up_heap\<close> as the first
  one left it.
\<close>

definition LookAlgorithm_process_requests :: "(int set \<Rightarrow> int list) \<Rightarrow> run \<Rightarrow> error + run" where
  "LookAlgorithm_process_requests iter w0 =
     (case partition_loop (iter (requests (elevator w0))) ([], [], w0) of
        (up_heap, down_heap, w1) \<Rightarrow>
          (case (if direction (elevator w1) \<in> set [Direction.IDLE, Direction.UP]
                 then up_loop up_heap w1 else Inr (up_heap, w1)) of
             Inl e \<Rightarrow> Inl e
           | Inr (up_heap', w2) \<Rightarrow>
               (case (if direction (elevator w2) \<in> set [Direction.IDLE, Direction.DOWN]
                         \<or> up_heap' = []
                      then down_loop down_heap w2 else Inr (down_heap, w2)) of
                  Inl e \<Rightarrow> Inl e
                | Inr (down_heap', w3) \<Rightarrow>
                    Inr (w3\<lparr>elevator := (elevator w3)
                              \<lparr>status := Status.IDLE, direction := Direction.IDLE,
                               internal_requests := [], external_requests := []\<rparr>\<rparr>))))"

text \<open>\<^verbatim>\<open>ElevatorCar.process_requests\<close> delegates to the car's strategy.\<close>

definition process_requests :: "(int set \<Rightarrow> int list) \<Rightarrow> run \<Rightarrow> error + run" where
  "process_requests iter w =
     (case strategy (elevator w) of
        LookAlgorithm \<Rightarrow> LookAlgorithm_process_requests iter w)"

text \<open>A cycle of one car, started on an empty console.\<close>

definition cycle :: "(int set \<Rightarrow> int list) \<Rightarrow> ElevatorCar \<Rightarrow> error + run" where
  "cycle iter car = process_requests iter \<lparr>elevator = car, console = [], visited = []\<rparr>"

section \<open>Dispatch of hall calls\<close>

text \<open>
  The dictionary of cars, keyed by car id. Every dispatcher and the controller hold a
  reference to the same dictionary object, and \<^verbatim>\<open>add_external_request\<close> mutates a car
  in place: the dictionary is threaded through the dispatchers, and the mutation of the
  car under key \<open>k\<close> is \<open>AList.update k\<close> with the car after the call.
\<close>

type_synonym elevators = "(int \<times> ElevatorCar) list"

definition getitem :: "elevators \<Rightarrow> int \<Rightarrow> error + ElevatorCar" where
  "getitem es k = (case map_of es k of None \<Rightarrow> Inl (KeyError k) | Some car \<Rightarrow> Inr car)"

text \<open>The three subclasses of \<^verbatim>\<open>ExternalButtonDispatcherStrategy\<close>; the fixed one carries
  its \<^verbatim>\<open>fixed_floors\<close> list.\<close>

datatype ExternalButtonDispatcherStrategy =
    OddDispatcher
  | EvenDispatcher
  | FixedDispatcher "int list"

fun assign_elevator ::
  "ExternalButtonDispatcherStrategy \<Rightarrow> int \<Rightarrow> Direction \<Rightarrow> elevators \<Rightarrow> error + elevators" where
  "assign_elevator OddDispatcher floor dir es =
     (if floor mod 2 = 1 \<and> 0 \<in> fst ` set es
      then (case getitem es 0 of
              Inl e \<Rightarrow> Inl e
            | Inr car \<Rightarrow> Inr (AList.update 0 (add_external_request floor dir car) es))
      else Inr es)"
| "assign_elevator EvenDispatcher floor dir es =
     (if floor mod 2 = 0 \<and> 1 \<in> fst ` set es
      then (case getitem es 1 of
              Inl e \<Rightarrow> Inl e
            | Inr car \<Rightarrow> Inr (AList.update 1 (add_external_request floor dir car) es))
      else Inr es)"
| "assign_elevator (FixedDispatcher fixed_floors) floor dir es =
     (if floor \<in> set fixed_floors \<and> 2 \<in> fst ` set es
      then (case getitem es 2 of
              Inl e \<Rightarrow> Inl e
            | Inr car \<Rightarrow> Inr (AList.update 2 (add_external_request floor dir car) es))
      else Inr es)"

record ElevatorController =
  elevators :: elevators
  strategies :: "ExternalButtonDispatcherStrategy list"

definition ElevatorController_init :: "elevators \<Rightarrow> int list \<Rightarrow> ElevatorController" where
  "ElevatorController_init es fixed_floors =
     \<lparr>elevators = es,
      strategies = [OddDispatcher, EvenDispatcher, FixedDispatcher fixed_floors]\<rparr>"

text \<open>Lines 199 and 200, the loop over the strategies still to come.\<close>

fun strategy_loop ::
  "ExternalButtonDispatcherStrategy list \<Rightarrow> int \<Rightarrow> Direction \<Rightarrow> elevators \<Rightarrow> error + elevators" where
  "strategy_loop [] floor dir es = Inr es"
| "strategy_loop (s # rest) floor dir es =
     (case assign_elevator s floor dir es of
        Inl e \<Rightarrow> Inl e
      | Inr es' \<Rightarrow> strategy_loop rest floor dir es')"

definition handle_external_request ::
  "int \<Rightarrow> Direction \<Rightarrow> ElevatorController \<Rightarrow> error + ElevatorController" where
  "handle_external_request floor dir self =
     (case strategy_loop (strategies self) floor dir (elevators self) of
        Inl e \<Rightarrow> Inl e
      | Inr es \<Rightarrow> Inr (self\<lparr>elevators := es\<rparr>))"

section \<open>Notions used to state what the scheduler does\<close>

text \<open>
  The definitions of this section are not code of the program; the lemmas below relate
  the program to them. \<open>visits fs w\<close> is the run after \<^verbatim>\<open>move_to_floor\<close> has been
  called for the floors \<open>fs\<close> in turn, \<open>travel d obs p fs\<close> the lines those calls print
  for a car at floor \<open>p\<close>, \<open>cleared\<close> the four assignments that end a cycle, and
  \<open>look_plan\<close> the stops of a cycle for a set iterated in the order \<open>xs\<close>.
\<close>

fun visits :: "int list \<Rightarrow> run \<Rightarrow> run" where
  "visits [] w = w"
| "visits (f # fs) w = visits fs (visit f w)"

fun travel :: "Display \<Rightarrow> ElevatorObserver list \<Rightarrow> int \<Rightarrow> int list \<Rightarrow> line list" where
  "travel d obs p [] = []"
| "travel d obs p (q # qs) = show_movement d p q @ map update obs @ travel d obs q qs"

definition cleared :: "ElevatorCar \<Rightarrow> ElevatorCar" where
  "cleared car = car\<lparr>status := Status.IDLE, direction := Direction.IDLE,
                     internal_requests := [], external_requests := []\<rparr>"

definition look_plan :: "Direction \<Rightarrow> int \<Rightarrow> int list \<Rightarrow> int list" where
  "look_plan dir cf xs =
     filter (\<lambda>f. f = cf) xs
       @ (if dir \<noteq> Direction.DOWN \<or> cf \<in> set xs then sort (filter (\<lambda>f. cf < f) xs) else [])
       @ rev (sort (filter (\<lambda>f. f < cf) xs))"

section \<open>Movement lines\<close>

lemma py_range_up: "py_range a b 1 = [a..b - 1]"
proof (induction "nat (b - a)" arbitrary: a)
  case 0
  then show ?case by simp
next
  case (Suc n)
  then have "a < b" and "n = nat (b - (a + 1))" by simp_all
  with Suc.hyps(1)[of "a + 1"] show ?case
    by (subst py_range.simps) (simp add: upto_rec1)
qed

lemma py_range_down: "py_range a b (- 1) = rev [b + 1..a]"
proof (induction "nat (a - b)" arbitrary: a)
  case 0
  then show ?case by simp
next
  case (Suc n)
  then have "b < a" and "n = nat (a - 1 - b)" by simp_all
  with Suc.hyps(1)[of "a - 1"] show ?case
    by (subst py_range.simps) (simp add: upto_rec2)
qed

lemma show_movement_up:
  "current < target \<Longrightarrow>
   show_movement d current target = map (MovementLine (display_elevator_id d)) [current + 1..target]"
  by (simp add: show_movement_def py_range_up del: py_range.simps)

lemma show_movement_down:
  "target < current \<Longrightarrow>
   show_movement d current target = map (MovementLine (display_elevator_id d)) (rev [target..current - 1])"
  by (simp add: show_movement_def py_range_down del: py_range.simps)

lemma show_movement_same: "show_movement d current current = []"
  by (simp add: show_movement_def)


section \<open>The loops of the scheduler in closed form\<close>

lemma visits_append: "visits (fs @ gs) w = visits gs (visits fs w)"
  by (induction fs arbitrary: w) simp_all

lemma visit_fields:
  "current_floor (elevator (visit f w)) = f"
  "display (elevator (visit f w)) = display (elevator w)"
  "observers (elevator (visit f w)) = observers (elevator w)"
  "visited (visit f w) = visited w @ [f]"
  "console (visit f w) =
     console w @ show_movement (display (elevator w)) (current_floor (elevator w)) f
       @ map update (observers (elevator w))"
  "cleared (elevator (visit f w)) = (cleared (elevator w))\<lparr>current_floor := f\<rparr>"
  by (simp_all add: visit_def move_to_floor_def notify_def cleared_def Let_def)

lemma visit_direction:
  "direction (elevator (visit f w)) =
     (if f > current_floor (elevator w) then Direction.UP
      else if f < current_floor (elevator w) then Direction.DOWN else Direction.IDLE)"
  by (simp add: visit_def move_to_floor_def Let_def)

lemma visits_fields:
  "visited (visits fs w) = visited w @ fs"
  "display (elevator (visits fs w)) = display (elevator w)"
  "observers (elevator (visits fs w)) = observers (elevator w)"
  "current_floor (elevator (visits fs w)) = last (current_floor (elevator w) # fs)"
  by (induction fs arbitrary: w) (simp_all add: visit_fields)

lemma visits_console:
  "console (visits fs w) =
     console w @ travel (display (elevator w)) (observers (elevator w)) (current_floor (elevator w)) fs"
  by (induction fs arbitrary: w) (simp_all add: visit_fields)

lemma visits_cleared:
  "cleared (elevator (visits fs w)) =
     (cleared (elevator w))\<lparr>current_floor := last (current_floor (elevator w) # fs)\<rparr>"
proof (induction fs arbitrary: w)
  case Nil
  show ?case by (simp add: cleared_def)
next
  case (Cons f fs)
  show ?case by (simp add: Cons.IH visit_fields)
qed

lemma sort_pop:
  assumes "h \<noteq> []"
  shows "sort h = Min (set h) # sort (remove1 (Min (set h)) h)"
proof (rule properties_for_sort)
  from assms have m: "Min (set h) \<in> set h" by (intro Min_in) simp_all
  then show "mset (Min (set h) # sort (remove1 (Min (set h)) h)) = mset h" by simp
  have "\<forall>x \<in> set (remove1 (Min (set h)) h). Min (set h) \<le> x"
    using set_remove1_subset[of "Min (set h)" h] by (auto intro: Min_le)
  then show "sorted (Min (set h) # sort (remove1 (Min (set h)) h))" by simp
qed

lemma up_loop_eq: "up_loop h w = Inr ([], visits (sort h) w)"
proof (induction h w rule: up_loop.induct)
  case (1 up_heap w)
  show ?case
  proof (cases "up_heap = []")
    case True
    then show ?thesis by simp
  next
    case False
    have pop: "heappop up_heap = Inr (Min (set up_heap), remove1 (Min (set up_heap)) up_heap)"
      using False by (simp add: heappop_def)
    have "up_loop up_heap w =
            up_loop (remove1 (Min (set up_heap)) up_heap) (visit (Min (set up_heap)) w)"
      using False pop by (subst up_loop.simps) simp
    also have "\<dots> = Inr ([], visits (sort (remove1 (Min (set up_heap)) up_heap))
                                  (visit (Min (set up_heap)) w))"
      using "1.IH"[OF False pop refl] .
    also have "\<dots> = Inr ([], visits (sort up_heap) w)"
      by (simp add: sort_pop[OF False])
    finally show ?thesis .
  qed
qed

lemma down_loop_eq: "down_loop h w = Inr ([], visits (map uminus (sort h)) w)"
proof (induction h w rule: down_loop.induct)
  case (1 down_heap w)
  show ?case
  proof (cases "down_heap = []")
    case True
    then show ?thesis by simp
  next
    case False
    have pop: "heappop down_heap = Inr (Min (set down_heap), remove1 (Min (set down_heap)) down_heap)"
      using False by (simp add: heappop_def)
    have "down_loop down_heap w =
            down_loop (remove1 (Min (set down_heap)) down_heap) (visit (- Min (set down_heap)) w)"
      using False pop by (subst down_loop.simps) simp
    also have "\<dots> = Inr ([], visits (map uminus (sort (remove1 (Min (set down_heap)) down_heap)))
                                  (visit (- Min (set down_heap)) w))"
      using "1.IH"[OF False pop refl] .
    also have "\<dots> = Inr ([], visits (map uminus (sort down_heap)) w)"
      by (simp add: sort_pop[OF False])
    finally show ?thesis .
  qed
qed


lemma partition_loop_eq:
  "partition_loop xs (u, d, w) =
     (rev (filter (\<lambda>f. current_floor (elevator w) < f) xs) @ u,
      rev (map uminus (filter (\<lambda>f. f < current_floor (elevator w)) xs)) @ d,
      visits (filter (\<lambda>f. f = current_floor (elevator w)) xs) w)"
proof (induction xs arbitrary: u d w)
  case Nil
  show ?case by simp
next
  case (Cons x xs)
  show ?case by (simp add: Cons.IH heappush_def visit_fields)
qed

lemma sort_of_rev: "sort (rev xs) = sort (xs :: int list)"
  by (rule properties_for_sort) simp_all

lemma sort_negated: "map uminus (sort (map uminus xs)) = rev (sort (xs :: int list))"
proof -
  have "sort (map uminus xs) = map uminus (rev (sort xs))"
    by (rule properties_for_sort)
       (simp_all add: sorted_wrt_map sorted_wrt_rev flip: rev_map)
  then show ?thesis by (simp add: rev_map comp_def)
qed

lemma visits_same_direction:
  "fs \<noteq> [] \<Longrightarrow> \<forall>f \<in> set fs. f = current_floor (elevator w) \<Longrightarrow>
   direction (elevator (visits fs w)) = Direction.IDLE"
proof (induction fs arbitrary: w)
  case Nil
  then show ?case by simp
next
  case (Cons f fs)
  show ?case
  proof (cases "fs = []")
    case True
    with Cons.prems show ?thesis by (simp add: visit_direction)
  next
    case False
    with Cons.prems Cons.IH[of "visit f w"] show ?thesis by (simp add: visit_fields)
  qed
qed

lemma direction_cases: "d \<noteq> Direction.DOWN \<longleftrightarrow> d = Direction.IDLE \<or> d = Direction.UP"
  by (cases d) simp_all

lemma LookAlgorithm_process_requests_eq:
  fixes iter w0
  defines "car \<equiv> elevator w0"
  defines "plan \<equiv> look_plan (direction car) (current_floor car) (iter (requests car))"
  shows "LookAlgorithm_process_requests iter w0 =
           Inr \<lparr>elevator = (cleared car)\<lparr>current_floor := last (current_floor car # plan)\<rparr>,
                console = console w0 @ travel (display car) (observers car) (current_floor car) plan,
                visited = visited w0 @ plan\<rparr>"
proof -
  define xs where "xs = iter (requests car)"
  define cf where "cf = current_floor car"
  define eqs where "eqs = filter (\<lambda>f. f = cf) xs"
  define ups where "ups = filter (\<lambda>f. cf < f) xs"
  define downs where "downs = filter (\<lambda>f. f < cf) xs"
  define w1 where "w1 = visits eqs w0"
  define go_up where "go_up \<longleftrightarrow> direction (elevator w1) \<in> set [Direction.IDLE, Direction.UP]"
  define w2 where "w2 = (if go_up then visits (sort ups) w1 else w1)"
  define w3 where "w3 = visits (rev (sort downs)) w2"
  have part: "partition_loop (iter (requests (elevator w0))) ([], [], w0)
                = (rev ups, rev (map uminus downs), w1)"
    by (simp add: partition_loop_eq xs_def cf_def eqs_def ups_def downs_def w1_def car_def)
  have first: "(if direction (elevator w1) \<in> set [Direction.IDLE, Direction.UP]
                then up_loop (rev ups) w1 else Inr (rev ups, w1))
               = Inr (if go_up then [] else rev ups, w2)"
    by (simp add: up_loop_eq sort_of_rev w2_def go_up_def del: up_loop.simps)
  have cond: "direction (elevator w2) \<in> set [Direction.IDLE, Direction.DOWN]
              \<or> (if go_up then [] else rev ups) = []"
    by (cases "direction (elevator w1)") (simp_all add: go_up_def w2_def)
  have second: "down_loop (rev (map uminus downs)) w2 = Inr ([], w3)"
    by (simp add: down_loop_eq sort_of_rev sort_negated w3_def del: down_loop.simps flip: rev_map)
  have result: "LookAlgorithm_process_requests iter w0 = Inr (w3\<lparr>elevator := cleared (elevator w3)\<rparr>)"
    by (simp only: LookAlgorithm_process_requests_def part prod.case first sum.case
          cond if_True second cleared_def)
  have dir1: "direction (elevator w1) = (if cf \<in> set xs then Direction.IDLE else direction car)"
  proof (cases "cf \<in> set xs")
    case True
    then have "eqs \<noteq> []" by (simp add: eqs_def filter_empty_conv)
    moreover have "\<forall>f \<in> set eqs. f = current_floor (elevator w0)"
      by (simp add: eqs_def cf_def car_def)
    ultimately show ?thesis using True by (simp add: w1_def visits_same_direction)
  next
    case False
    then have "eqs = []" by (auto simp: eqs_def filter_empty_conv)
    with False show ?thesis by (simp add: w1_def car_def)
  qed
  have go: "go_up \<longleftrightarrow> direction car \<noteq> Direction.DOWN \<or> cf \<in> set xs"
    by (simp add: go_up_def dir1 direction_cases)
  have w3: "w3 = visits plan w0"
    by (simp add: w3_def w2_def w1_def plan_def look_plan_def visits_append go
          eqs_def ups_def downs_def xs_def cf_def)
  show ?thesis
    unfolding result w3
    by (simp add: visits_fields visits_console visits_cleared car_def)
qed

lemma process_requests_eq:
  "process_requests iter w =
     Inr \<lparr>elevator = (cleared (elevator w))
                        \<lparr>current_floor :=
                           last (current_floor (elevator w)
                                 # look_plan (direction (elevator w)) (current_floor (elevator w))
                                     (iter (requests (elevator w))))\<rparr>,
          console = console w
                      @ travel (display (elevator w)) (observers (elevator w))
                          (current_floor (elevator w))
                          (look_plan (direction (elevator w)) (current_floor (elevator w))
                             (iter (requests (elevator w)))),
          visited = visited w
                      @ look_plan (direction (elevator w)) (current_floor (elevator w))
                          (iter (requests (elevator w)))\<rparr>"
  by (cases "strategy (elevator w)")
     (simp add: process_requests_def LookAlgorithm_process_requests_eq)

section \<open>The end of a cycle\<close>

text \<open>
  Claim C2. Whatever the car, the console and the iteration order of the set,
  \<^verbatim>\<open>process_requests\<close> returns (no \<^verbatim>\<open>IndexError\<close> escapes the two \<^verbatim>\<open>while\<close>
  loops, which both terminate), and the car it leaves has an empty internal-request
  list, an empty external-request dictionary, status \<open>Status.IDLE\<close> and direction
  \<open>Direction.IDLE\<close>.
\<close>

theorem cycle_clears_store:
  "\<exists>w'. process_requests iter w = Inr w'
       \<and> internal_requests (elevator w') = []
       \<and> external_requests (elevator w') = []
       \<and> status (elevator w') = Status.IDLE
       \<and> direction (elevator w') = Direction.IDLE"
  by (simp add: process_requests_eq cleared_def)

section \<open>The request store\<close>

text \<open>
  A second hall call for a floor does not overwrite the first: for a new car, after a
  call at floor 3 with \<open>UP\<close> and one at floor 3 with \<open>DOWN\<close> the direction recorded for
  floor 3 is \<open>UP\<close>, not \<open>DOWN\<close>.
\<close>

theorem hall_call_second_direction_counterexample:
  "map_of (external_requests
             (add_external_request 3 Direction.DOWN
                (add_external_request 3 Direction.UP (ElevatorCar_init 0)))) 3
     = Some Direction.UP
   \<and> Some Direction.UP \<noteq> Some Direction.DOWN"
  by (simp add: add_external_request_def ElevatorCar_init_def)

text \<open>
  Claim C3, as amended. For every car and floor \<open>f\<close>, after
  \<^verbatim>\<open>add_external_request(f, d1)\<close> and then \<^verbatim>\<open>add_external_request(f, d2)\<close> the direction
  recorded for \<open>f\<close> is the one recorded after the first call; when no direction was
  recorded for \<open>f\<close> before the first call, it is \<open>d1\<close>. The guard
  \<^verbatim>\<open>if floor not in self.external_requests\<close> makes the second call a no-op.
\<close>

theorem hall_call_first_direction_kept:
  "map_of (external_requests (add_external_request f d2 (add_external_request f d1 car))) f
     = map_of (external_requests (add_external_request f d1 car)) f
   \<and> (map_of (external_requests car) f = None \<longrightarrow>
        map_of (external_requests (add_external_request f d2 (add_external_request f d1 car))) f
          = Some d1)"
  by (simp add: add_external_request_def update_conv')

theorem hall_call_first_direction_kept_witness:
  "map_of (external_requests (ElevatorCar_init 0)) 3 = None
   \<and> map_of (external_requests
                (add_external_request 3 Direction.DOWN
                   (add_external_request 3 Direction.UP (ElevatorCar_init 0)))) 3
       = Some Direction.UP"
proof -
  have h: "map_of (external_requests (ElevatorCar_init 0)) 3 = None"
    by (simp add: ElevatorCar_init_def)
  from hall_call_first_direction_kept [of 3 Direction.DOWN Direction.UP "ElevatorCar_init 0"] h
  show ?thesis by blast
qed

text \<open>
  Claim C9. When the external-request dictionary of a car already records a direction
  \<open>d0\<close> for floor \<open>f\<close>, \<^verbatim>\<open>add_external_request(f, d)\<close> returns the car as it was, every
  field included, so \<open>d0\<close> stays recorded for \<open>f\<close>.
\<close>

theorem add_external_request_recorded_floor:
  "map_of (external_requests car) f = Some d0 \<Longrightarrow>
   add_external_request f d car = car
   \<and> map_of (external_requests (add_external_request f d car)) f = Some d0"
  by (simp add: add_external_request_def)

theorem add_external_request_recorded_floor_witness:
  "map_of (external_requests (add_external_request 3 Direction.UP (ElevatorCar_init 0))) 3
     = Some Direction.UP
   \<and> add_external_request 3 Direction.DOWN (add_external_request 3 Direction.UP (ElevatorCar_init 0))
       = add_external_request 3 Direction.UP (ElevatorCar_init 0)"
proof -
  have h: "map_of (external_requests (add_external_request 3 Direction.UP (ElevatorCar_init 0))) 3
             = Some Direction.UP"
    by (simp add: add_external_request_def ElevatorCar_init_def)
  show ?thesis
    using h add_external_request_recorded_floor [OF h, of Direction.DOWN] by simp
qed

text \<open>
  The internal-request list of a car never holds a floor twice: it is empty in a new
  car, only \<^verbatim>\<open>press_internal_button\<close> adds to it, and the end of a cycle empties it.
\<close>

lemma ElevatorCar_init_distinct: "distinct (internal_requests (ElevatorCar_init i))"
  by (simp add: ElevatorCar_init_def)

lemma press_internal_button_distinct:
  "distinct (internal_requests car) \<Longrightarrow> distinct (internal_requests (press_internal_button f car))"
  by (simp add: press_internal_button_def)

lemma add_external_request_internal:
  "internal_requests (add_external_request f d car) = internal_requests car"
  by (simp add: add_external_request_def)

lemma move_to_floor_internal:
  "internal_requests (snd (move_to_floor f car)) = internal_requests car"
  by (simp add: move_to_floor_def Let_def)

lemma process_requests_distinct:
  "process_requests iter w = Inr w' \<Longrightarrow> distinct (internal_requests (elevator w'))"
  by (auto simp: process_requests_eq cleared_def)

lemma distinct_count_list: "distinct xs \<Longrightarrow> count_list xs x = (if x \<in> set xs then 1 else 0)"
  by (induction xs) auto

text \<open>
  Claim C6. For every car whose internal-request list holds no floor twice (every car
  the program builds, by the lemmas above), pressing the cabin button of floor \<open>f\<close>
  twice gives the same car as pressing it once, and the list then holds \<open>f\<close> exactly
  once.
\<close>

theorem press_internal_button_twice:
  "distinct (internal_requests car) \<Longrightarrow>
   press_internal_button f (press_internal_button f car) = press_internal_button f car
   \<and> count_list (internal_requests (press_internal_button f (press_internal_button f car))) f = 1"
  by (simp add: press_internal_button_def distinct_count_list)

theorem press_internal_button_twice_witness:
  "distinct (internal_requests (ElevatorCar_init 0))
   \<and> press_internal_button 7 (press_internal_button 7 (ElevatorCar_init 0))
       = press_internal_button 7 (ElevatorCar_init 0)
   \<and> internal_requests (press_internal_button 7 (press_internal_button 7 (ElevatorCar_init 0))) = [7]"
proof -
  have h: "distinct (internal_requests (ElevatorCar_init 0))"
    by (simp add: ElevatorCar_init_def)
  show ?thesis
    using h press_internal_button_twice [OF h, of 7]
    by (simp add: press_internal_button_def ElevatorCar_init_def)
qed

section \<open>The lines of one move\<close>

text \<open>
  Claim C8. A move from floor \<open>p\<close> (the car's current floor) to a different floor \<open>q\<close>
  prints one movement line for each of the floors \<open>p + 1, \<dots>, q\<close> in ascending order
  when \<open>q > p\<close>, and for each of the floors \<open>p - 1, \<dots>, q\<close> in descending order when
  \<open>q < p\<close>; the observers' lines of \<^verbatim>\<open>notify\<close>, the arrival notification, come after
  them, and the car is then at \<open>q\<close>.
\<close>

theorem move_to_floor_traversal:
  "(current_floor car < q \<longrightarrow>
      fst (move_to_floor q car)
        = map (MovementLine (display_elevator_id (display car))) [current_floor car + 1..q]
            @ notify (snd (move_to_floor q car)))
   \<and> (q < current_floor car \<longrightarrow>
      fst (move_to_floor q car)
        = map (MovementLine (display_elevator_id (display car))) (rev [q..current_floor car - 1])
            @ notify (snd (move_to_floor q car)))
   \<and> current_floor (snd (move_to_floor q car)) = q"
  by (simp add: move_to_floor_def Let_def show_movement_up show_movement_down)

theorem move_to_floor_traversal_witness:
  "fst (move_to_floor 8 ((ElevatorCar_init 0)\<lparr>current_floor := 5\<rparr>))
     = [MovementLine (Some 0) 6, MovementLine (Some 0) 7, MovementLine (Some 0) 8,
        DisplayLine (Some 0) 0 Direction.IDLE, LoggerLine (Some 0)]
   \<and> fst (move_to_floor 2 ((ElevatorCar_init 0)\<lparr>current_floor := 5\<rparr>))
     = [MovementLine (Some 0) 4, MovementLine (Some 0) 3, MovementLine (Some 0) 2,
        DisplayLine (Some 0) 0 Direction.IDLE, LoggerLine (Some 0)]"
proof -
  have n: "\<And>q. notify (snd (move_to_floor q ((ElevatorCar_init 0)\<lparr>current_floor := 5\<rparr>)))
             = [DisplayLine (Some 0) 0 Direction.IDLE, LoggerLine (Some 0)]"
    by (simp add: move_to_floor_def Let_def notify_def ElevatorCar_init_def Display_init_def
          Logger_init_def)
  have d: "display_elevator_id (display ((ElevatorCar_init 0)\<lparr>current_floor := 5\<rparr>)) = Some 0"
          "current_floor ((ElevatorCar_init 0)\<lparr>current_floor := 5\<rparr>) = 5"
    by (simp_all add: ElevatorCar_init_def Display_init_def)
  have u: "[5 + 1..8] = [6, 7, (8::int)]" "rev [2..5 - 1] = [4, 3, (2::int)]"
    by (simp_all add: upto_rec1)
  from move_to_floor_traversal [of "(ElevatorCar_init 0)\<lparr>current_floor := 5\<rparr>" 8]
       move_to_floor_traversal [of "(ElevatorCar_init 0)\<lparr>current_floor := 5\<rparr>" 2]
  show ?thesis unfolding n d u by simp
qed

section \<open>Dispatch\<close>

lemma getitem_present: "map_of es k = Some c \<Longrightarrow> getitem es k = Inr c"
  by (simp add: getitem_def)

lemma key_present: "k \<in> fst ` set es \<longleftrightarrow> map_of es k \<noteq> None"
  by (simp add: map_of_eq_None_iff)

lemma assign_elevator_odd:
  "map_of es 0 = Some c \<Longrightarrow>
   assign_elevator OddDispatcher floor dir es =
     Inr (if floor mod 2 = 1 then AList.update 0 (add_external_request floor dir c) es else es)"
  by (simp add: key_present getitem_present)

lemma assign_elevator_even:
  "map_of es 1 = Some c \<Longrightarrow>
   assign_elevator EvenDispatcher floor dir es =
     Inr (if floor mod 2 = 0 then AList.update 1 (add_external_request floor dir c) es else es)"
  by (simp add: key_present getitem_present)

lemma assign_elevator_fixed:
  "map_of es 2 = Some c \<Longrightarrow>
   assign_elevator (FixedDispatcher ff) floor dir es =
     Inr (if floor \<in> set ff then AList.update 2 (add_external_request floor dir c) es else es)"
  by (simp add: key_present getitem_present)

lemma assign_elevator_total: "\<exists>es'. assign_elevator s floor dir es = Inr es'"
proof (cases s)
  case OddDispatcher
  then show ?thesis by (cases "map_of es 0") (auto simp: key_present getitem_def)
next
  case EvenDispatcher
  then show ?thesis by (cases "map_of es 1") (auto simp: key_present getitem_def)
next
  case (FixedDispatcher ff)
  then show ?thesis by (cases "map_of es 2") (auto simp: key_present getitem_def)
qed

lemma strategy_loop_total: "\<exists>es'. strategy_loop ss floor dir es = Inr es'"
proof (induction ss arbitrary: es)
  case Nil
  show ?case by simp
next
  case (Cons s ss)
  obtain es1 where "assign_elevator s floor dir es = Inr es1"
    using assign_elevator_total by blast
  with Cons.IH[of es1] show ?case by simp
qed

lemma add_external_request_key:
  "f \<in> fst ` set (external_requests (add_external_request f d c))"
  by (auto simp: add_external_request_def key_present update_conv')

lemma handle_external_request_present:
  assumes "map_of es 0 = Some c0" and "map_of es 1 = Some c1" and "map_of es 2 = Some c2"
  shows "handle_external_request floor dir (ElevatorController_init es ff) =
           Inr (ElevatorController_init
                  ((if floor \<in> set ff then AList.update 2 (add_external_request floor dir c2) else id)
                    ((if floor mod 2 = 0 then AList.update 1 (add_external_request floor dir c1) else id)
                      ((if floor mod 2 = 1 then AList.update 0 (add_external_request floor dir c0) else id)
                        es))) ff)"
proof -
  define es1 where "es1 = (if floor mod 2 = 1 then AList.update 0 (add_external_request floor dir c0) else id) es"
  define es2 where "es2 = (if floor mod 2 = 0 then AList.update 1 (add_external_request floor dir c1) else id) es1"
  have a1: "assign_elevator OddDispatcher floor dir es = Inr es1"
    using assms(1) by (simp add: assign_elevator_odd es1_def del: assign_elevator.simps)
  have "map_of es1 1 = Some c1" using assms(2) by (simp add: es1_def update_conv')
  then have a2: "assign_elevator EvenDispatcher floor dir es1 = Inr es2"
    by (simp add: assign_elevator_even es2_def del: assign_elevator.simps)
  have "map_of es2 2 = Some c2" using assms(3) by (simp add: es1_def es2_def update_conv')
  then have a3: "assign_elevator (FixedDispatcher ff) floor dir es2 =
      Inr ((if floor \<in> set ff then AList.update 2 (add_external_request floor dir c2) else id) es2)"
    by (simp add: assign_elevator_fixed del: assign_elevator.simps)
  show ?thesis
    unfolding handle_external_request_def ElevatorController_init_def
    by (simp add: a1 a2 a3 del: assign_elevator.simps flip: es1_def es2_def)
qed

text \<open>
  Claim C4. With cars 0, 1 and 2 in the dictionary, a hall call runs through all three
  dispatchers: car 0 receives it when the floor is odd, car 1 when it is even, car 2
  when it is in the fixed list, each independently of the others, and no other entry
  changes. With the fixed list \<open>[0, 5, 9]\<close>: floor 3 reaches car 0 only; floor 9 reaches
  car 2 (and car 0, since 9 is odd); floor 5 reaches both car 0 and car 2.
\<close>

theorem hall_call_broadcast:
  assumes "map_of es 0 = Some c0" and "map_of es 1 = Some c1" and "map_of es 2 = Some c2"
  shows
    "(\<exists>es'. handle_external_request floor dir (ElevatorController_init es ff)
              = Inr (ElevatorController_init es' ff)
         \<and> map_of es' 0 = Some (if floor mod 2 = 1 then add_external_request floor dir c0 else c0)
         \<and> map_of es' 1 = Some (if floor mod 2 = 0 then add_external_request floor dir c1 else c1)
         \<and> map_of es' 2 = Some (if floor \<in> set ff then add_external_request floor dir c2 else c2)
         \<and> (\<forall>k. k \<noteq> 0 \<and> k \<noteq> 1 \<and> k \<noteq> 2 \<longrightarrow> map_of es' k = map_of es k))
     \<and> (\<exists>es'. handle_external_request 3 dir (ElevatorController_init es [0, 5, 9])
              = Inr (ElevatorController_init es' [0, 5, 9])
         \<and> map_of es' 0 = Some (add_external_request 3 dir c0)
         \<and> 3 \<in> fst ` set (external_requests (add_external_request 3 dir c0))
         \<and> map_of es' 1 = Some c1 \<and> map_of es' 2 = Some c2)
     \<and> (\<exists>es'. handle_external_request 9 dir (ElevatorController_init es [0, 5, 9])
              = Inr (ElevatorController_init es' [0, 5, 9])
         \<and> map_of es' 2 = Some (add_external_request 9 dir c2)
         \<and> 9 \<in> fst ` set (external_requests (add_external_request 9 dir c2))
         \<and> map_of es' 0 = Some (add_external_request 9 dir c0) \<and> map_of es' 1 = Some c1)
     \<and> (\<exists>es'. handle_external_request 5 dir (ElevatorController_init es [0, 5, 9])
              = Inr (ElevatorController_init es' [0, 5, 9])
         \<and> map_of es' 0 = Some (add_external_request 5 dir c0)
         \<and> 5 \<in> fst ` set (external_requests (add_external_request 5 dir c0))
         \<and> map_of es' 2 = Some (add_external_request 5 dir c2)
         \<and> 5 \<in> fst ` set (external_requests (add_external_request 5 dir c2))
         \<and> map_of es' 1 = Some c1)"
proof -
  have gen: "\<exists>es'. handle_external_request fl dir (ElevatorController_init es fs)
              = Inr (ElevatorController_init es' fs)
         \<and> map_of es' 0 = Some (if fl mod 2 = 1 then add_external_request fl dir c0 else c0)
         \<and> map_of es' 1 = Some (if fl mod 2 = 0 then add_external_request fl dir c1 else c1)
         \<and> map_of es' 2 = Some (if fl \<in> set fs then add_external_request fl dir c2 else c2)
         \<and> (\<forall>k. k \<noteq> 0 \<and> k \<noteq> 1 \<and> k \<noteq> 2 \<longrightarrow> map_of es' k = map_of es k)" for fl fs
    unfolding handle_external_request_present [OF assms]
    by (rule exI [of _ "(if fl \<in> set fs then AList.update 2 (add_external_request fl dir c2) else id)
                    ((if fl mod 2 = 0 then AList.update 1 (add_external_request fl dir c1) else id)
                      ((if fl mod 2 = 1 then AList.update 0 (add_external_request fl dir c0) else id)
                        es))"])
       (use assms in \<open>simp add: update_conv'\<close>)
  show ?thesis
  proof (intro conjI)
    show "\<exists>es'. handle_external_request floor dir (ElevatorController_init es ff)
              = Inr (ElevatorController_init es' ff)
         \<and> map_of es' 0 = Some (if floor mod 2 = 1 then add_external_request floor dir c0 else c0)
         \<and> map_of es' 1 = Some (if floor mod 2 = 0 then add_external_request floor dir c1 else c1)
         \<and> map_of es' 2 = Some (if floor \<in> set ff then add_external_request floor dir c2 else c2)
         \<and> (\<forall>k. k \<noteq> 0 \<and> k \<noteq> 1 \<and> k \<noteq> 2 \<longrightarrow> map_of es' k = map_of es k)"
      by (rule gen)
    show "\<exists>es'. handle_external_request 3 dir (ElevatorController_init es [0, 5, 9])
              = Inr (ElevatorController_init es' [0, 5, 9])
         \<and> map_of es' 0 = Some (add_external_request 3 dir c0)
         \<and> 3 \<in> fst ` set (external_requests (add_external_request 3 dir c0))
         \<and> map_of es' 1 = Some c1 \<and> map_of es' 2 = Some c2"
      using gen [of 3 "[0, 5, 9]"] add_external_request_key [of 3 dir c0] by auto
    show "\<exists>es'. handle_external_request 9 dir (ElevatorController_init es [0, 5, 9])
              = Inr (ElevatorController_init es' [0, 5, 9])
         \<and> map_of es' 2 = Some (add_external_request 9 dir c2)
         \<and> 9 \<in> fst ` set (external_requests (add_external_request 9 dir c2))
         \<and> map_of es' 0 = Some (add_external_request 9 dir c0) \<and> map_of es' 1 = Some c1"
      using gen [of 9 "[0, 5, 9]"] add_external_request_key [of 9 dir c2] by auto
    show "\<exists>es'. handle_external_request 5 dir (ElevatorController_init es [0, 5, 9])
              = Inr (ElevatorController_init es' [0, 5, 9])
         \<and> map_of es' 0 = Some (add_external_request 5 dir c0)
         \<and> 5 \<in> fst ` set (external_requests (add_external_request 5 dir c0))
         \<and> map_of es' 2 = Some (add_external_request 5 dir c2)
         \<and> 5 \<in> fst ` set (external_requests (add_external_request 5 dir c2))
         \<and> map_of es' 1 = Some c1"
      using gen [of 5 "[0, 5, 9]"] add_external_request_key [of 5 dir c0]
        add_external_request_key [of 5 dir c2] by auto
  qed
qed

theorem hall_call_broadcast_witness:
  "map (\<lambda>(k, car). (k, external_requests car))
     (elevators (projr (handle_external_request 5 Direction.DOWN
                          (ElevatorController_init [(0::int, ElevatorCar_init 0), (1, ElevatorCar_init 1), (2, ElevatorCar_init 2)] [0, 5, 9]))))
     = [(0, [(5, Direction.DOWN)]), (1, []), (2, [(5, Direction.DOWN)])]
   \<and> (\<exists>es'. handle_external_request 5 Direction.DOWN (ElevatorController_init [(0::int, ElevatorCar_init 0), (1, ElevatorCar_init 1), (2, ElevatorCar_init 2)] [0, 5, 9])
              = Inr (ElevatorController_init es' [0, 5, 9])
         \<and> map_of es' 0 = Some (add_external_request 5 Direction.DOWN (ElevatorCar_init 0))
         \<and> map_of es' 2 = Some (add_external_request 5 Direction.DOWN (ElevatorCar_init 2))
         \<and> map_of es' 1 = Some (ElevatorCar_init 1))"
proof -
  have h: "map_of [(0::int, ElevatorCar_init 0), (1, ElevatorCar_init 1), (2, ElevatorCar_init 2)] 0 = Some (ElevatorCar_init 0)"
          "map_of [(0::int, ElevatorCar_init 0), (1, ElevatorCar_init 1), (2, ElevatorCar_init 2)] 1 = Some (ElevatorCar_init 1)"
          "map_of [(0::int, ElevatorCar_init 0), (1, ElevatorCar_init 1), (2, ElevatorCar_init 2)] 2 = Some (ElevatorCar_init 2)"
    by (simp_all add: ElevatorCar_init_def)
  have e: "map (\<lambda>(k, car). (k, external_requests car))
     (elevators (projr (handle_external_request 5 Direction.DOWN
                          (ElevatorController_init [(0::int, ElevatorCar_init 0), (1, ElevatorCar_init 1), (2, ElevatorCar_init 2)] [0, 5, 9]))))
     = [(0, [(5, Direction.DOWN)]), (1, []), (2, [(5, Direction.DOWN)])]"
    by (simp add: handle_external_request_def ElevatorController_init_def ElevatorCar_init_def
          getitem_def add_external_request_def ElevatorCar_init_def)
  from hall_call_broadcast [OF h, of 5 Direction.DOWN "[0, 5, 9]"]
  have "\<exists>es'. handle_external_request 5 Direction.DOWN (ElevatorController_init [(0::int, ElevatorCar_init 0), (1, ElevatorCar_init 1), (2, ElevatorCar_init 2)] [0, 5, 9])
              = Inr (ElevatorController_init es' [0, 5, 9])
         \<and> map_of es' 0 = Some (add_external_request 5 Direction.DOWN (ElevatorCar_init 0))
         \<and> map_of es' 2 = Some (add_external_request 5 Direction.DOWN (ElevatorCar_init 2))
         \<and> map_of es' 1 = Some (ElevatorCar_init 1)"
    by blast
  with e show ?thesis by blast
qed

text \<open>
  Claim C10. A dispatcher whose car id (0 for odd, 1 for even, 2 for fixed) is not a key
  of the dictionary leaves the dictionary as it is. So a hall call all of whose eligible
  dispatchers lack their car changes no car, and \<^verbatim>\<open>handle_external_request\<close> raises
  nothing, for any controller.
\<close>

theorem absent_car_no_enqueue:
  "(0 \<notin> fst ` set es \<longrightarrow> assign_elevator OddDispatcher floor dir es = Inr es)
   \<and> (1 \<notin> fst ` set es \<longrightarrow> assign_elevator EvenDispatcher floor dir es = Inr es)
   \<and> (2 \<notin> fst ` set es \<longrightarrow> assign_elevator (FixedDispatcher ff) floor dir es = Inr es)
   \<and> ((floor mod 2 = 1 \<longrightarrow> 0 \<notin> fst ` set es)
        \<and> (floor mod 2 = 0 \<longrightarrow> 1 \<notin> fst ` set es)
        \<and> (floor \<in> set ff \<longrightarrow> 2 \<notin> fst ` set es)
       \<longrightarrow> handle_external_request floor dir (ElevatorController_init es ff)
             = Inr (ElevatorController_init es ff))
   \<and> (\<exists>c. handle_external_request floor dir ctrl = Inr c)"
proof (intro conjI)
  show "\<exists>c. handle_external_request floor dir ctrl = Inr c"
    using strategy_loop_total [of "strategies ctrl" floor dir "elevators ctrl"]
    by (auto simp: handle_external_request_def)
qed (auto simp: handle_external_request_def ElevatorController_init_def)

theorem absent_car_no_enqueue_witness:
  "4 mod 2 = (0::int) \<and> 1 \<notin> fst ` set [(0::int, ElevatorCar_init 0)] \<and> (4::int) \<notin> set [0, 5, 9]
   \<and> handle_external_request 4 Direction.UP (ElevatorController_init [(0, ElevatorCar_init 0)] [0, 5, 9])
       = Inr (ElevatorController_init [(0, ElevatorCar_init 0)] [0, 5, 9])"
proof -
  have h: "((4::int) mod 2 = 1 \<longrightarrow> 0 \<notin> fst ` set [(0::int, ElevatorCar_init 0)])
        \<and> ((4::int) mod 2 = 0 \<longrightarrow> 1 \<notin> fst ` set [(0::int, ElevatorCar_init 0)])
        \<and> ((4::int) \<in> set [0, 5, 9] \<longrightarrow> 2 \<notin> fst ` set [(0::int, ElevatorCar_init 0)])"
    by simp
  from absent_car_no_enqueue [of "[(0, ElevatorCar_init 0)]" 4 Direction.UP "[0, 5, 9]"] h
  have "handle_external_request 4 Direction.UP (ElevatorController_init [(0, ElevatorCar_init 0)] [0, 5, 9])
       = Inr (ElevatorController_init [(0, ElevatorCar_init 0)] [0, 5, 9])"
    by blast
  then show ?thesis by simp
qed

section \<open>The visiting order of a cycle\<close>

lemma distinct_filter_eq: "distinct xs \<Longrightarrow> filter (\<lambda>f. f = a) xs = (if a \<in> set xs then [a] else [])"
  by (induction xs) auto

lemma sort_filter_distinct:
  "distinct xs \<Longrightarrow> sort (filter P xs) = sorted_list_of_set {x \<in> set xs. P x}"
proof -
  assume "distinct xs"
  then have "sort (filter P xs) = sort (remdups (filter P xs))"
    by (simp add: distinct_remdups_id)
  also have "\<dots> = sorted_list_of_set (set (filter P xs))"
    by (simp only: sorted_list_of_set_sort_remdups)
  finally show ?thesis by simp
qed

lemma look_plan_iterates:
  assumes "iterates iter R"
  shows "look_plan dir cf (iter R) =
           (if cf \<in> R then [cf] else [])
             @ (if dir \<noteq> Direction.DOWN \<or> cf \<in> R then sorted_list_of_set {f \<in> R. cf < f} else [])
             @ rev (sorted_list_of_set {f \<in> R. f < cf})"
proof -
  from assms have d: "distinct (iter R)" and s: "set (iter R) = R"
    by (simp_all add: iterates_def)
  show ?thesis
    unfolding look_plan_def distinct_filter_eq [OF d] sort_filter_distinct [OF d] s by simp
qed


lemma requests_union:
  "requests car = set (internal_requests car) \<union> fst ` set (external_requests car)"
  by (simp add: requests_def)

lemma iterates_sorted_list_of_set: "finite S \<Longrightarrow> iterates sorted_list_of_set S"
  by (simp add: iterates_def)



text \<open>
  Claim C5. The pending floors are the union of the floors of the internal-request list
  and the keys of the external-request dictionary, and the \<^verbatim>\<open>for\<close> loop consumes each
  of them exactly once: the floors pushed on \<open>up_heap\<close>, those pushed (negated) on
  \<open>down_heap\<close> and the one stopped at are pairwise different and together make up that
  union.
\<close>

theorem pending_floors_consumed_once:
  "requests car = set (internal_requests car) \<union> fst ` set (external_requests car)
   \<and> (iterates iter (requests car) \<longrightarrow>
        (case partition_loop (iter (requests car))
                ([], [], \<lparr>elevator = car, console = [], visited = []\<rparr>) of
           (up_heap, down_heap, w1) \<Rightarrow>
             distinct (up_heap @ map uminus down_heap @ visited w1)
             \<and> set (up_heap @ map uminus down_heap @ visited w1)
                 = set (internal_requests car) \<union> fst ` set (external_requests car)))"
proof (intro conjI impI)
  show "requests car = set (internal_requests car) \<union> fst ` set (external_requests car)"
    by (rule requests_union)
next
  assume it: "iterates iter (requests car)"
  define xs where "xs = iter (requests car)"
  from it have d: "distinct xs" and s: "set xs = requests car"
    by (simp_all add: iterates_def xs_def)
  have neg: "map uminus (rev (map uminus ys)) = rev ys" for ys :: "int list"
    by (simp add: rev_map comp_def)
  have "distinct (rev (filter (\<lambda>f. current_floor car < f) xs)
                   @ rev (filter (\<lambda>f. f < current_floor car) xs)
                   @ filter (\<lambda>f. f = current_floor car) xs)"
    using d by auto
  moreover have "set (rev (filter (\<lambda>f. current_floor car < f) xs)
                   @ rev (filter (\<lambda>f. f < current_floor car) xs)
                   @ filter (\<lambda>f. f = current_floor car) xs) = set xs"
    by auto
  ultimately show "case partition_loop (iter (requests car))
                ([], [], \<lparr>elevator = car, console = [], visited = []\<rparr>) of
           (up_heap, down_heap, w1) \<Rightarrow>
             distinct (up_heap @ map uminus down_heap @ visited w1)
             \<and> set (up_heap @ map uminus down_heap @ visited w1)
                 = set (internal_requests car) \<union> fst ` set (external_requests car)"
    unfolding partition_loop_eq xs_def [symmetric]
    by (simp add: visits_fields neg s requests_union del: set_append distinct_append set_rev distinct_rev)
qed

theorem pending_floors_consumed_once_witness:
  "iterates sorted_list_of_set
     (requests ((ElevatorCar_init 0)\<lparr>current_floor := 4, internal_requests := [7, 4, 2],
                                     external_requests := [(7, Direction.UP), (9, Direction.DOWN)]\<rparr>))
   \<and> requests ((ElevatorCar_init 0)\<lparr>current_floor := 4, internal_requests := [7, 4, 2],
                                     external_requests := [(7, Direction.UP), (9, Direction.DOWN)]\<rparr>)
       = {2, 4, 7, 9}
   \<and> (case partition_loop
              (sorted_list_of_set
                 (requests ((ElevatorCar_init 0)\<lparr>current_floor := 4, internal_requests := [7, 4, 2],
                                     external_requests := [(7, Direction.UP), (9, Direction.DOWN)]\<rparr>)))
              ([], [], \<lparr>elevator = (ElevatorCar_init 0)\<lparr>current_floor := 4, internal_requests := [7, 4, 2],
                                     external_requests := [(7, Direction.UP), (9, Direction.DOWN)]\<rparr>,
                        console = [], visited = []\<rparr>) of
         (up_heap, down_heap, w1) \<Rightarrow>
           distinct (up_heap @ map uminus down_heap @ visited w1)
           \<and> set (up_heap @ map uminus down_heap @ visited w1) = {2, 4, 7, 9})"
proof -
  let ?car = "(ElevatorCar_init 0)\<lparr>current_floor := 4, internal_requests := [7, 4, 2],
                                     external_requests := [(7, Direction.UP), (9, Direction.DOWN)]\<rparr>"
  have h: "iterates sorted_list_of_set (requests ?car)"
    by (rule iterates_sorted_list_of_set) (simp add: requests_def)
  have r: "requests ?car = {2, 4, 7, 9}"
    by (auto simp: requests_def ElevatorCar_init_def)
  have u: "set (internal_requests ?car) \<union> fst ` set (external_requests ?car) = {2, 4, 7, 9}"
    by (auto simp: ElevatorCar_init_def)
  note pending_floors_consumed_once [of ?car sorted_list_of_set, THEN conjunct2, rule_format, OF h]
  then show ?thesis unfolding u using h r by simp
qed

section \<open>A pending floor equal to the current floor\<close>

text \<open>
  A car at floor 5 with direction \<open>DOWN\<close>. With pending floors 5, 7 and 3 the stop at
  floor 5 sets the direction to \<open>IDLE\<close>, so the ascending scan runs and the stops are
  5, 7, 3. With pending floors 7 and 3 only, the ascending scan is skipped and the only
  stop is 3: the presence of floor 5 decides whether floor 7 is visited.
\<close>

theorem equal_floor_changes_scan_counterexample:
  "map_sum id visited
     (cycle sorted_list_of_set
        ((ElevatorCar_init 0)\<lparr>current_floor := 5, direction := Direction.DOWN,
                               internal_requests := [5, 7, 3]\<rparr>))
     = Inr [5, 7, 3]
   \<and> map_sum id visited
     (cycle sorted_list_of_set
        ((ElevatorCar_init 0)\<lparr>current_floor := 5, direction := Direction.DOWN,
                               internal_requests := [7, 3]\<rparr>))
     = Inr [3]"
  by (simp add: cycle_def process_requests_eq look_plan_def requests_def ElevatorCar_init_def
        sorted_list_of_set_sort_remdups)

lemma update_not_movement: "update ob \<noteq> MovementLine i f"
  by (cases ob) simp_all

lemma move_to_same_floor:
  "move_to_floor (current_floor car) car
     = (notify car, car\<lparr>direction := Direction.IDLE, status := Status.STOPPED\<rparr>)"
  by (simp add: move_to_floor_def Let_def show_movement_same notify_def)

text \<open>
  Claim C7, as amended. When the current floor is pending, \<^verbatim>\<open>move_to_floor\<close> for it
  prints the observers' lines only, no movement line, and the cycle stops there exactly
  once, before every other stop. When moreover the car's direction at the start is not
  \<open>DOWN\<close>, or no pending floor is above the current floor, the cycle is otherwise the one
  of the same car without that floor pending: the same other stops in the same order,
  the same lines after the first notification, the same final car.
\<close>

theorem stop_at_current_floor:
  assumes "current_floor car \<in> requests car" and "iterates iter (requests car)"
  shows "fst (move_to_floor (current_floor car) car) = notify car
     \<and> (\<forall>i f. MovementLine i f \<notin> set (notify car))
     \<and> (\<exists>r rest. cycle iter car = Inr r \<and> visited r = current_floor car # rest
            \<and> current_floor car \<notin> set rest)
     \<and> (direction car \<noteq> Direction.DOWN \<or> (\<forall>f \<in> requests car. f \<le> current_floor car) \<longrightarrow>
          (\<forall>ir er iter'.
             requests (car\<lparr>internal_requests := ir, external_requests := er\<rparr>)
               = requests car - {current_floor car}
             \<and> iterates iter' (requests car - {current_floor car}) \<longrightarrow>
             (\<exists>r r'. cycle iter car = Inr r
                \<and> cycle iter' (car\<lparr>internal_requests := ir, external_requests := er\<rparr>) = Inr r'
                \<and> visited r = current_floor car # visited r'
                \<and> console r = notify car @ console r'
                \<and> elevator r = elevator r')))"
proof (intro conjI allI impI)
  show "fst (move_to_floor (current_floor car) car) = notify car"
    by (simp add: move_to_same_floor)
next
  fix i f
  show "MovementLine i f \<notin> set (notify car)"
    by (auto simp: notify_def update_not_movement [THEN not_sym])
next
  have fin: "finite (requests car)" by (simp add: requests_def)
  have "current_floor car \<notin> set (sorted_list_of_set {f \<in> requests car. current_floor car < f}
            @ rev (sorted_list_of_set {f \<in> requests car. f < current_floor car}))"
    using fin by simp
  then show "\<exists>r rest. cycle iter car = Inr r \<and> visited r = current_floor car # rest
            \<and> current_floor car \<notin> set rest"
    using assms by (simp add: cycle_def process_requests_eq look_plan_iterates)
next
  fix ir er iter'
  let ?car' = "car\<lparr>internal_requests := ir, external_requests := er\<rparr>"
  assume c: "direction car \<noteq> Direction.DOWN \<or> (\<forall>f \<in> requests car. f \<le> current_floor car)"
  assume "requests ?car' = requests car - {current_floor car}
             \<and> iterates iter' (requests car - {current_floor car})"
  then have r': "requests ?car' = requests car - {current_floor car}"
    and it': "iterates iter' (requests car - {current_floor car})" by simp_all
  have up: "{f \<in> requests car - {current_floor car}. current_floor car < f}
              = {f \<in> requests car. current_floor car < f}" by auto
  have down: "{f \<in> requests car - {current_floor car}. f < current_floor car}
              = {f \<in> requests car. f < current_floor car}" by auto
  have p: "look_plan (direction car) (current_floor car) (iter (requests car))
             = current_floor car
               # sorted_list_of_set {f \<in> requests car. current_floor car < f}
               @ rev (sorted_list_of_set {f \<in> requests car. f < current_floor car})"
    unfolding look_plan_iterates [OF assms(2)] using assms(1) by simp
  have p': "look_plan (direction car) (current_floor car) (iter' (requests ?car'))
             = (if direction car \<noteq> Direction.DOWN
                then sorted_list_of_set {f \<in> requests car. current_floor car < f} else [])
               @ rev (sorted_list_of_set {f \<in> requests car. f < current_floor car})"
    unfolding r' look_plan_iterates [OF it'] up down by simp
  have asc: "(if direction car \<noteq> Direction.DOWN
                then sorted_list_of_set {f \<in> requests car. current_floor car < f} else [])
             = sorted_list_of_set {f \<in> requests car. current_floor car < f}"
  proof (cases "direction car \<noteq> Direction.DOWN")
    case True
    then show ?thesis by simp
  next
    case False
    with c have "\<forall>f \<in> requests car. f \<le> current_floor car" by simp
    then have "{f \<in> requests car. current_floor car < f} = {}" by auto
    then have "sorted_list_of_set {f \<in> requests car. current_floor car < f} = []"
      by (simp only: sorted_list_of_set.sorted_key_list_of_set_empty)
    with False show ?thesis by simp
  qed
  have plan: "look_plan (direction car) (current_floor car) (iter (requests car))
                = current_floor car
                  # look_plan (direction car) (current_floor car) (iter' (requests ?car'))"
    unfolding p p' asc by simp
  have cl: "cleared ?car' = cleared car" by (simp add: cleared_def)
  show "\<exists>r r'. cycle iter car = Inr r
                \<and> cycle iter' ?car' = Inr r'
                \<and> visited r = current_floor car # visited r'
                \<and> console r = notify car @ console r'
                \<and> elevator r = elevator r'"
    unfolding cycle_def process_requests_eq
    by (simp add: plan cl show_movement_same notify_def)
qed

theorem stop_at_current_floor_witness:
  "(\<exists>r r'. cycle sorted_list_of_set
               ((ElevatorCar_init 0)\<lparr>current_floor := 5, direction := Direction.UP,
                                      internal_requests := [5, 7, 3]\<rparr>) = Inr r
      \<and> cycle sorted_list_of_set
               ((ElevatorCar_init 0)\<lparr>current_floor := 5, direction := Direction.UP,
                                      internal_requests := [7, 3]\<rparr>) = Inr r'
      \<and> visited r = [5, 7, 3] \<and> visited r' = [7, 3]
      \<and> console r = [DisplayLine (Some 0) 0 Direction.IDLE, LoggerLine (Some 0)] @ console r'
      \<and> elevator r = elevator r')"
proof -
  let ?car = "(ElevatorCar_init 0)\<lparr>current_floor := 5, direction := Direction.UP,
                                      internal_requests := [5, 7, 3]\<rparr>"
  let ?car' = "(ElevatorCar_init 0)\<lparr>current_floor := 5, direction := Direction.UP,
                                      internal_requests := [7, 3]\<rparr>"
  have c': "?car\<lparr>internal_requests := [7, 3], external_requests := []\<rparr> = ?car'"
    by (simp add: ElevatorCar_init_def)
  have h1: "current_floor ?car \<in> requests ?car"
    by (simp add: requests_def ElevatorCar_init_def)
  have h2: "iterates sorted_list_of_set (requests ?car)"
    by (rule iterates_sorted_list_of_set) (simp add: requests_def)
  have h3: "direction ?car \<noteq> Direction.DOWN \<or> (\<forall>f \<in> requests ?car. f \<le> current_floor ?car)"
    by simp
  have h4: "requests (?car\<lparr>internal_requests := [7, 3], external_requests := []\<rparr>)
              = requests ?car - {current_floor ?car}
            \<and> iterates sorted_list_of_set (requests ?car - {current_floor ?car})"
    by (rule conjI, simp add: requests_def ElevatorCar_init_def,
        rule iterates_sorted_list_of_set, simp add: requests_def)
  have n: "notify ?car = [DisplayLine (Some 0) 0 Direction.IDLE, LoggerLine (Some 0)]"
    by (simp add: notify_def ElevatorCar_init_def Display_init_def Logger_init_def)
  have v': "map_sum id visited (cycle sorted_list_of_set ?car') = Inr [7, 3]"
    by (simp add: cycle_def process_requests_eq look_plan_def requests_def ElevatorCar_init_def
          sorted_list_of_set_sort_remdups)
  from stop_at_current_floor [OF h1 h2, THEN conjunct2, THEN conjunct2, THEN conjunct2,
      rule_format, OF h3 h4]
  obtain r r' where "cycle sorted_list_of_set ?car = Inr r"
      and "cycle sorted_list_of_set ?car' = Inr r'"
      and "visited r = current_floor ?car # visited r'"
      and "console r = notify ?car @ console r'"
      and "elevator r = elevator r'"
    unfolding c' by blast
  moreover from this v' have "visited r' = [7, 3]" by simp
  ultimately show ?thesis unfolding n by (auto simp: ElevatorCar_init_def)
qed

end
